theory Spec2Isabelle
  imports Main "HOL-Library.Word" "HOL-Library.Signed_Division"
begin

unbundle bit_operations_syntax

section \<open>Data model\<close>

text \<open>
  The source is \<^verbatim>\<open>everybit/bitarray.c\<close>: a packed array of bits, eight per byte, bit
  \<open>i\<close> in byte \<open>i / 8\<close> at position \<open>i % 8\<close> counted from the least significant bit.

  \<^item> A \<^verbatim>\<open>char\<close> is a byte, \<open>8 word\<close>. The bitwise operators of C act on the promoted
    \<^verbatim>\<open>int\<close> and the result is stored back into a \<^verbatim>\<open>char\<close>, which keeps the low eight
    bits: on \<open>8 word\<close> that is \<open>AND\<close>, \<open>OR\<close>, \<open>NOT\<close> and \<open>push_bit\<close>.
  \<^item> Whether plain \<^verbatim>\<open>char\<close> is signed is left to the platform by C. It matters in one
    place, the right shift of a \<^verbatim>\<open>char\<close> in \<^verbatim>\<open>rotate_single\<close>, so it is a parameter
    \<open>char_signed\<close> of the model (\<open>True\<close> on x86, \<open>False\<close> on ARM Linux).
  \<^item> \<^verbatim>\<open>size_t\<close> is \<open>nat\<close> and \<^verbatim>\<open>ssize_t\<close> is \<open>int\<close>. The functions are given twice.
    First on the integers as they are, which is what the source computes for every
    in-range call on an array of at most \<open>2 ^ 62\<close> bits (a buffer of \<open>2 ^ 59\<close> bytes).
    Then, with the suffix \<open>_64\<close>, on 64-bit integers: the sums of \<^verbatim>\<open>size_t\<close> values
    wrap modulo \<open>2 ^ 64\<close>, the cast to \<^verbatim>\<open>ssize_t\<close> changes the sign from \<open>2 ^ 63\<close> on
    and a signed sum that leaves the range is a fault. The two are proved equal on
    in-range calls up to \<open>2 ^ 62\<close> bits; the claims about calls outside that range are
    settled on the 64-bit definitions. C's \<^verbatim>\<open>%\<close> and \<^verbatim>\<open>/\<close> on signed operands
    truncate towards zero: \<open>smod\<close> and \<open>sdiv\<close>.
  \<^item> \<^verbatim>\<open>struct bitarray\<close> is a record; the buffer is the list of its bytes.
  \<^item> A failed \<^verbatim>\<open>assert\<close> aborts the program: the value \<open>Inl AssertionFailure\<close>.
    The two other faults are undefined behaviour of C, met only by the 64-bit
    definitions below: a signed sum that overflows and an access outside the buffer.
  \<^item> The \<^verbatim>\<open>printf\<close> tracing of \<^verbatim>\<open>rotate_single\<close> changes no state and is left out.
\<close>

type_synonym byte = "8 word"

record bitarray =
  bit_sz :: nat
  buf :: "byte list"

datatype fault = AssertionFailure | SignedOverflow | OutOfBounds

text \<open>
  The buffer of an array made by \<^verbatim>\<open>bitarray_new\<close> has \<open>ceil (bit_sz / 8)\<close> bytes, and no
  operation changes its length. The expression is the one of \<^verbatim>\<open>bitarray_new\<close>.
\<close>

definition wf_bitarray :: "bitarray \<Rightarrow> bool" where
  "wf_bitarray a \<longleftrightarrow>
     length (buf a) = bit_sz a div 8 + (if bit_sz a mod 8 = 0 then 0 else 1)"

text \<open>Bit \<open>i\<close> of the buffer as the layout defines it, padding bits included.\<close>

definition buffer_bit :: "bitarray \<Rightarrow> nat \<Rightarrow> bool" where
  "buffer_bit a i = bit (buf a ! (i div 8)) (i mod 8)"

section \<open>Storage\<close>

text \<open>
  \<^verbatim>\<open>bitarray_new\<close> returns \<^verbatim>\<open>NULL\<close> when \<^verbatim>\<open>calloc\<close> or \<^verbatim>\<open>malloc\<close> fails. Whether the
  two allocations succeed is decided outside the program: two parameters.
\<close>

definition bitarray_new :: "bool \<Rightarrow> bool \<Rightarrow> nat \<Rightarrow> bitarray option" where
  "bitarray_new calloc_ok malloc_ok n =
     (if \<not> calloc_ok then None
      else if \<not> malloc_ok then None
      else Some \<lparr>bit_sz = n,
                 buf = replicate (n div 8 + (if n mod 8 = 0 then 0 else 1)) 0\<rparr>)"

definition bitarray_get_bit_sz :: "bitarray \<Rightarrow> nat" where
  "bitarray_get_bit_sz a = bit_sz a"

definition bitmask :: "nat \<Rightarrow> byte" where
  "bitmask bit_index = push_bit (bit_index mod 8) 1"

definition bitarray_get :: "bitarray \<Rightarrow> nat \<Rightarrow> fault + bool" where
  "bitarray_get a bit_index =
     (if \<not> bit_index < bit_sz a then Inl AssertionFailure
      else Inr ((buf a ! (bit_index div 8)) AND bitmask bit_index \<noteq> 0))"

definition bitarray_set :: "bitarray \<Rightarrow> nat \<Rightarrow> bool \<Rightarrow> fault + bitarray" where
  "bitarray_set a bit_index v =
     (if \<not> bit_index < bit_sz a then Inl AssertionFailure
      else Inr (a\<lparr>buf := (buf a)[bit_index div 8 :=
                  ((buf a ! (bit_index div 8)) AND NOT (bitmask bit_index))
                  OR (if v then bitmask bit_index else 0)]\<rparr>))"

section \<open>Index and mask utilities\<close>

definition modulo :: "int \<Rightarrow> nat \<Rightarrow> fault + nat" where
  "modulo n m =
     (let signed_m = int m in
      if \<not> signed_m > 0 then Inl AssertionFailure
      else let result = ((n smod signed_m) + signed_m) smod signed_m in
        if \<not> result \<ge> 0 then Inl AssertionFailure
        else Inr (nat result))"

definition get_shift :: "nat \<Rightarrow> int \<Rightarrow> fault + int" where
  "get_shift bit_length bit_right_amount =
     (case modulo bit_right_amount bit_length of
        Inl e \<Rightarrow> Inl e
      | Inr r \<Rightarrow>
          (let result = int r in
           Inr (if result < 0 then result + int bit_length else result)))"

definition get_char_index :: "nat \<Rightarrow> nat" where
  "get_char_index bit_offset = bit_offset div 8"

definition get_end_bit :: "nat \<Rightarrow> nat \<Rightarrow> nat" where
  "get_end_bit bit_offset bit_length = (8 - (bit_offset + bit_length) mod 8) mod 8"

definition left_mask :: "byte list" where
  "left_mask = [0xFF, 0x7F, 0x3F, 0x1F, 0x0F, 0x07, 0x03, 0x01, 0x00]"

definition right_mask :: "byte list" where
  "right_mask = [0xFF, 0xFE, 0xFC, 0xF8, 0xF0, 0xE0, 0xC0, 0x80, 0x00]"

definition clean_left :: "byte \<Rightarrow> nat \<Rightarrow> byte" where
  "clean_left c bit_count = c AND (left_mask ! bit_count)"

definition clean_right :: "byte \<Rightarrow> nat \<Rightarrow> byte" where
  "clean_right c bit_count = c AND (right_mask ! bit_count)"

section \<open>Rotation\<close>

text \<open>
  \<^verbatim>\<open>c1 >> shiftBit\<close> with \<^verbatim>\<open>char c1\<close>: the operand is promoted to \<^verbatim>\<open>int\<close>, with its
  sign where \<^verbatim>\<open>char\<close> is signed, and the shift of a negative value is arithmetic on
  the compilers in use.
\<close>

definition char_shift_right :: "bool \<Rightarrow> byte \<Rightarrow> nat \<Rightarrow> byte" where
  "char_shift_right char_signed c k =
     (if char_signed then signed_drop_bit k c else drop_bit k c)"

text \<open>
  \<^verbatim>\<open>shiftBit\<close> is an \<^verbatim>\<open>ssize_t\<close> that its only caller keeps in \<open>0..7\<close>; in the sums
  with a \<^verbatim>\<open>size_t\<close> it is converted to \<^verbatim>\<open>size_t\<close>, here \<open>nat\<close>.
\<close>

definition rotate_single :: "bool \<Rightarrow> bitarray \<Rightarrow> nat \<Rightarrow> nat \<Rightarrow> nat \<Rightarrow> int \<Rightarrow> bitarray" where
  "rotate_single char_signed a charIndex beginBit endBit shiftBit =
     (let c = buf a ! charIndex;
          c1 = clean_left c endBit;
          c1 = clean_right c1 (beginBit + nat shiftBit);
          c1 = char_shift_right char_signed c1 (nat shiftBit);
          c2 = clean_left c (8 - (beginBit + nat shiftBit));
          c2 = clean_right c2 beginBit;
          left_shift = (8 - beginBit - nat shiftBit) - endBit;
          c2 = push_bit left_shift c2;
          c3 = clean_left c (8 - beginBit);
          c4 = clean_right c (8 - endBit);
          c = c1 OR c2 OR c3 OR c4
      in a\<lparr>buf := (buf a)[charIndex := c]\<rparr>)"

definition bitarray_rotate :: "bool \<Rightarrow> bitarray \<Rightarrow> nat \<Rightarrow> nat \<Rightarrow> int \<Rightarrow> fault + bitarray" where
  "bitarray_rotate char_signed a bit_offset bit_length bit_right_amount =
     (if bit_offset + bit_length > bit_sz a then Inr a
      else if bit_length = 0 \<or> bit_length = 1 then Inr a
      else case get_shift bit_length bit_right_amount of
        Inl e \<Rightarrow> Inl e
      | Inr shift \<Rightarrow>
          if shift = 0 then Inr a
          else
            let shiftByte = shift sdiv 8;
                shiftBit = shift smod 8;
                beginCharIndex = get_char_index bit_offset;
                endCharIndex = get_char_index (bit_offset + bit_length - 1);
                beginBit = bit_offset mod 8;
                endBit = get_end_bit bit_offset bit_length
            in if beginCharIndex = endCharIndex
               then Inr (rotate_single char_signed a beginCharIndex beginBit endBit shiftBit)
               else Inr a)"

subsection \<open>The bit-by-bit reference rotation\<close>

text \<open>
  The loop of \<^verbatim>\<open>bitarray_rotate_left_one\<close>: \<^verbatim>\<open>for (i = bit_offset; i + 1 < bit_offset +
  bit_length; i++)\<close>. It returns the array and the final \<open>i\<close>, which the caller uses.
\<close>

function rotate_left_one_loop :: "bitarray \<Rightarrow> nat \<Rightarrow> nat \<Rightarrow> fault + (bitarray \<times> nat)" where
  "rotate_left_one_loop a i bound =
     (if i + 1 < bound then
        (case bitarray_get a (i + 1) of
           Inl e \<Rightarrow> Inl e
         | Inr b \<Rightarrow>
             (case bitarray_set a i b of
                Inl e \<Rightarrow> Inl e
              | Inr a' \<Rightarrow> rotate_left_one_loop a' (i + 1) bound))
      else Inr (a, i))"
  by pat_completeness auto
termination
  by (relation "measure (\<lambda>(a, i, bound). bound - i)") auto

declare rotate_left_one_loop.simps [simp del]

definition bitarray_rotate_left_one :: "bitarray \<Rightarrow> nat \<Rightarrow> nat \<Rightarrow> fault + bitarray" where
  "bitarray_rotate_left_one a bit_offset bit_length =
     (case bitarray_get a bit_offset of
        Inl e \<Rightarrow> Inl e
      | Inr first_bit \<Rightarrow>
          (case rotate_left_one_loop a bit_offset (bit_offset + bit_length) of
             Inl e \<Rightarrow> Inl e
           | Inr (a', i) \<Rightarrow> bitarray_set a' i first_bit))"

text \<open>\<^verbatim>\<open>for (i = 0; i < bit_left_amount; i++)\<close>: one step per unit of the amount.\<close>

fun bitarray_rotate_left :: "bitarray \<Rightarrow> nat \<Rightarrow> nat \<Rightarrow> nat \<Rightarrow> fault + bitarray" where
  "bitarray_rotate_left a bit_offset bit_length 0 = Inr a"
| "bitarray_rotate_left a bit_offset bit_length (Suc k) =
     (case bitarray_rotate_left_one a bit_offset bit_length of
        Inl e \<Rightarrow> Inl e
      | Inr a' \<Rightarrow> bitarray_rotate_left a' bit_offset bit_length k)"

definition bitarray_rotate_old :: "bitarray \<Rightarrow> nat \<Rightarrow> nat \<Rightarrow> int \<Rightarrow> fault + bitarray" where
  "bitarray_rotate_old a bit_offset bit_length bit_right_amount =
     (if \<not> bit_offset + bit_length \<le> bit_sz a then Inl AssertionFailure
      else if bit_length = 0 then Inr a
      else case modulo (- bit_right_amount) bit_length of
        Inl e \<Rightarrow> Inl e
      | Inr k \<Rightarrow> bitarray_rotate_left a bit_offset bit_length k)"

section \<open>The same functions on 64-bit integers\<close>

text \<open>
  \<^verbatim>\<open>(ssize_t)m\<close> for a \<^verbatim>\<open>size_t\<close> value \<open>m < 2 ^ 64\<close>: the same 64 bits read as two's
  complement.
\<close>

definition ssize_t_of_size_t :: "nat \<Rightarrow> int" where
  "ssize_t_of_size_t m = (if m < 2 ^ 63 then int m else int m - 2 ^ 64)"

text \<open>
  \<^verbatim>\<open>modulo\<close> with the cast of \<open>m\<close> and the range of \<^verbatim>\<open>ssize_t\<close>. With \<open>signed_m > 0\<close>
  the remainder \<^verbatim>\<open>n % signed_m\<close> is defined and lies strictly between \<open>- signed_m\<close> and
  \<open>signed_m\<close>, so the sum \<^verbatim>\<open>(n % signed_m) + signed_m\<close> is positive and can leave the range
  only at the top.
\<close>

definition modulo_64 :: "int \<Rightarrow> nat \<Rightarrow> fault + nat" where
  "modulo_64 n m =
     (let signed_m = ssize_t_of_size_t m in
      if \<not> signed_m > 0 then Inl AssertionFailure
      else let r = n smod signed_m in
        if \<not> r + signed_m < 2 ^ 63 then Inl SignedOverflow
        else let result = (r + signed_m) smod signed_m in
          if \<not> result \<ge> 0 then Inl AssertionFailure
          else Inr (nat result))"

text \<open>
  \<^verbatim>\<open>result + bit_length\<close> adds an \<^verbatim>\<open>ssize_t\<close> and a \<^verbatim>\<open>size_t\<close>: the sum is computed as
  \<^verbatim>\<open>size_t\<close>, modulo \<open>2 ^ 64\<close>, and stored back into the \<^verbatim>\<open>ssize_t\<close>.
\<close>

definition get_shift_64 :: "nat \<Rightarrow> int \<Rightarrow> fault + int" where
  "get_shift_64 bit_length bit_right_amount =
     (case modulo_64 bit_right_amount bit_length of
        Inl e \<Rightarrow> Inl e
      | Inr r \<Rightarrow>
          (let result = ssize_t_of_size_t r in
           Inr (if result < 0
                then ssize_t_of_size_t (nat ((result + int bit_length) mod 2 ^ 64))
                else result)))"

definition get_end_bit_64 :: "nat \<Rightarrow> nat \<Rightarrow> nat" where
  "get_end_bit_64 bit_offset bit_length =
     (8 - ((bit_offset + bit_length) mod 2 ^ 64) mod 8) mod 8"

text \<open>
  \<^verbatim>\<open>bitarray_rotate\<close> with the sums \<^verbatim>\<open>bit_offset + bit_length\<close> and
  \<^verbatim>\<open>bit_offset + bit_length - 1\<close> modulo \<open>2 ^ 64\<close>, for arguments below \<open>2 ^ 64\<close>. The
  source reads and writes \<^verbatim>\<open>buf[charIndex]\<close> without a check: outside the buffer that
  is the fault \<open>OutOfBounds\<close>.
\<close>

definition bitarray_rotate_64 :: "bool \<Rightarrow> bitarray \<Rightarrow> nat \<Rightarrow> nat \<Rightarrow> int \<Rightarrow> fault + bitarray" where
  "bitarray_rotate_64 char_signed a bit_offset bit_length bit_right_amount =
     (if (bit_offset + bit_length) mod 2 ^ 64 > bit_sz a then Inr a
      else if bit_length = 0 \<or> bit_length = 1 then Inr a
      else case get_shift_64 bit_length bit_right_amount of
        Inl e \<Rightarrow> Inl e
      | Inr shift \<Rightarrow>
          if shift = 0 then Inr a
          else
            let shiftByte = shift sdiv 8;
                shiftBit = shift smod 8;
                beginCharIndex = get_char_index bit_offset;
                endCharIndex = get_char_index ((bit_offset + bit_length - 1) mod 2 ^ 64);
                beginBit = bit_offset mod 8;
                endBit = get_end_bit_64 bit_offset bit_length
            in if beginCharIndex = endCharIndex
               then (if \<not> beginCharIndex < length (buf a) then Inl OutOfBounds
                     else Inr (rotate_single char_signed a beginCharIndex beginBit endBit
                                 shiftBit))
               else Inr a)"

section \<open>Specification notions\<close>

text \<open>
  The byte that \<^verbatim>\<open>rotate_single\<close> stores, as a function of the byte it reads: the
  four parts \<open>c1\<close>, \<open>c2\<close>, \<open>c3\<close>, \<open>c4\<close> of the source, joined. It is used to state
  lemmas about \<open>rotate_single\<close> and is proved equal to what the function writes.
\<close>

definition rotate_single_byte :: "bool \<Rightarrow> byte \<Rightarrow> nat \<Rightarrow> nat \<Rightarrow> nat \<Rightarrow> byte" where
  "rotate_single_byte char_signed c beginBit endBit s =
     char_shift_right char_signed (clean_right (clean_left c endBit) (beginBit + s)) s
     OR push_bit ((8 - beginBit - s) - endBit)
          (clean_right (clean_left c (8 - (beginBit + s))) beginBit)
     OR clean_left c (8 - beginBit)
     OR clean_right c (8 - endBit)"

section \<open>The true modulo\<close>

lemma smod_nonneg: "0 \<le> x \<Longrightarrow> (x::int) smod m = x mod \<bar>m\<bar>"
  by (cases "x = 0") (simp_all add: signed_modulo_int_def)

lemma smod_bounds: "0 < m \<Longrightarrow> - m < (n::int) smod m \<and> n smod m < m"
proof (cases "0 \<le> n")
  case True
  assume m: "0 < m"
  then have "n smod m = n mod m" using True by (simp add: smod_nonneg)
  moreover have "0 \<le> n mod m" "n mod m < m" using m by simp_all
  ultimately show ?thesis using m by linarith
next
  case False
  assume m: "0 < m"
  then have "n smod m = - ((- n) mod m)"
    using False by (simp add: signed_modulo_int_def sgn_if abs_if)
  moreover have "0 \<le> (- n) mod m" "(- n) mod m < m" using m by simp_all
  ultimately show ?thesis using m by linarith
qed

lemma smod_mod: "((n::int) smod m) mod m = n mod m"
  by (simp add: signed_modulo_int_eq_modulo_int)

lemma modulo_eq: "0 < m \<Longrightarrow> modulo n m = Inr (nat (n mod int m))"
proof -
  assume m: "0 < m"
  let ?x = "(n smod int m) + int m"
  have "0 \<le> ?x" using smod_bounds [of "int m" n] m by simp
  then have "?x smod int m = ?x mod int m" by (simp add: smod_nonneg)
  also have "\<dots> = n mod int m" by (simp add: smod_mod)
  finally show ?thesis using m by (simp add: modulo_def Let_def)
qed

lemma get_shift_eq: "0 < len \<Longrightarrow> get_shift len amt = Inr (amt mod int len)"
  by (simp add: get_shift_def modulo_eq Let_def not_less)

section \<open>Reading and writing one bit\<close>

lemma bit_byte_less: "bit (c :: byte) n \<Longrightarrow> n < 8"
  by (auto dest: bit_imp_le_length)

lemma test_bitmask: "(c :: byte) AND bitmask i \<noteq> 0 \<longleftrightarrow> bit c (i mod 8)"
  by (simp add: bitmask_def and_exp_eq_0_iff_not_bit)

lemma bitarray_get_eq:
  "i < bit_sz a \<Longrightarrow> bitarray_get a i = Inr (buffer_bit a i)"
  by (simp add: bitarray_get_def buffer_bit_def test_bitmask)

lemma bit_set_byte:
  "bit (((c :: byte) AND NOT (bitmask i)) OR (if v then bitmask i else 0)) n \<longleftrightarrow>
     (if n = i mod 8 then v else bit c n)"
  by (auto simp: bitmask_def bit_simps dest: bit_byte_less)

lemma ceil_div8: "n div 8 + (if n mod 8 = 0 then 0 else 1) = (n + 7) div (8::nat)"
proof -
  have "(n + 7) div 8 = n div 8 + 7 div 8 + (n mod 8 + 7 mod 8) div 8"
    by (rule div_add1_eq)
  then have "(n + 7) div 8 = n div 8 + (n mod 8 + 7) div 8"
    by simp
  moreover have "(n mod 8 + 7) div 8 = (if n mod 8 = 0 then 0 else 1)"
  proof (cases "n mod 8 = 0")
    case True
    then show ?thesis by simp
  next
    case False
    have "n mod 8 < 8" by simp
    then have "n mod 8 + 7 = (n mod 8 - 1) + 8" "n mod 8 - 1 < 8" using False by simp_all
    then have "(n mod 8 + 7) div 8 = 1" by simp
    then show ?thesis using False by simp
  qed
  ultimately show ?thesis by simp
qed

lemma index_in_ceil: "i < n \<Longrightarrow> i div 8 < (n + 7) div (8::nat)"
proof -
  assume a: "i < n"
  then have "n + 7 = (n - 1) + 8" by simp
  then have "(n + 7) div 8 = Suc ((n - 1) div 8)" by simp
  moreover have "i div 8 \<le> (n - 1) div 8" using a by (intro div_le_mono) simp
  ultimately show ?thesis by simp
qed

lemma wf_index: "wf_bitarray a \<Longrightarrow> i < bit_sz a \<Longrightarrow> i div 8 < length (buf a)"
  by (simp only: wf_bitarray_def ceil_div8 index_in_ceil)

lemma div_mod_eq_iff: "(i::nat) div 8 = j div 8 \<and> i mod 8 = j mod 8 \<longleftrightarrow> i = j"
proof
  assume h: "i div 8 = j div 8 \<and> i mod 8 = j mod 8"
  have "i = 8 * (i div 8) + i mod 8" by simp
  also have "\<dots> = 8 * (j div 8) + j mod 8" using h by simp
  finally show "i = j" by simp
qed simp

lemma bitarray_set_bit:
  assumes "wf_bitarray a" "i < bit_sz a"
  shows "\<exists>a'. bitarray_set a i v = Inr a' \<and> bit_sz a' = bit_sz a
           \<and> length (buf a') = length (buf a) \<and> wf_bitarray a'
           \<and> (\<forall>j. buffer_bit a' j = (if j = i then v else buffer_bit a j))"
proof -
  let ?a' = "a\<lparr>buf := (buf a)[i div 8 :=
                  ((buf a ! (i div 8)) AND NOT (bitmask i))
                  OR (if v then bitmask i else 0)]\<rparr>"
  have "buffer_bit ?a' j = (if j = i then v else buffer_bit a j)" for j
  proof (cases "j div 8 = i div 8")
    case True
    then show ?thesis using wf_index [OF assms] div_mod_eq_iff [of i j]
      by (auto simp: buffer_bit_def bit_set_byte)
  next
    case False
    then show ?thesis by (auto simp: buffer_bit_def)
  qed
  then show ?thesis using assms
    by (auto simp: bitarray_set_def wf_bitarray_def)
qed

text \<open>
  Claim C6. For every well-formed array, every index below \<open>bit_sz\<close> and every
  boolean: \<open>bitarray_set\<close> succeeds, after it \<open>bitarray_get\<close> at the index returns
  the value written, and at every other valid index it returns what it returned
  before.
\<close>

theorem set_get_round_trip:
  assumes "wf_bitarray a" and "index < bit_sz a"
  shows "\<exists>a'. bitarray_set a index v = Inr a'
           \<and> bitarray_get a' index = Inr v
           \<and> (\<forall>j. j < bit_sz a \<and> j \<noteq> index \<longrightarrow> bitarray_get a' j = bitarray_get a j)"
proof -
  obtain a' where a': "bitarray_set a index v = Inr a'" "bit_sz a' = bit_sz a"
    "\<And>j. buffer_bit a' j = (if j = index then v else buffer_bit a j)"
    using bitarray_set_bit [OF assms] by blast
  have "bitarray_get a' index = Inr v"
    using assms(2) a' by (simp add: bitarray_get_eq)
  moreover have "bitarray_get a' j = bitarray_get a j" if "j < bit_sz a" "j \<noteq> index" for j
    using that a' by (simp add: bitarray_get_eq)
  ultimately show ?thesis using a'(1) by blast
qed

theorem set_get_round_trip_witness:
  "wf_bitarray \<lparr>bit_sz = 16, buf = [2, 0]\<rparr> \<and> (14::nat) < 16 \<and>
   (\<exists>a'. bitarray_set \<lparr>bit_sz = 16, buf = [2, 0]\<rparr> 14 True = Inr a'
         \<and> bitarray_get a' 14 = Inr True
         \<and> bitarray_get a' 1 = bitarray_get \<lparr>bit_sz = 16, buf = [2, 0]\<rparr> 1)"
proof -
  have wf: "wf_bitarray \<lparr>bit_sz = 16, buf = [2, 0]\<rparr>"
    by (simp add: wf_bitarray_def)
  have lt: "14 < bit_sz \<lparr>bit_sz = 16, buf = [2, 0]\<rparr>"
    by simp
  show ?thesis
    using set_get_round_trip [OF wf lt, of True] wf by auto
qed

text \<open>
  Claim C7. For every \<open>n\<close>, when both allocations succeed \<open>bitarray_new\<close> returns an
  array of \<open>n\<close> bits over a zeroed buffer of \<open>ceil (n / 8)\<close> bytes (none for \<open>n = 0\<close>),
  and \<open>bitarray_get\<close> returns false at every index below \<open>n\<close>.
\<close>

theorem bitarray_new_zeroed:
  "\<exists>a. bitarray_new True True n = Some a
       \<and> bit_sz a = n
       \<and> buf a = replicate ((n + 7) div 8) 0
       \<and> (\<forall>i. i < n \<longrightarrow> bitarray_get a i = Inr False)"
  by (simp add: bitarray_new_def ceil_div8 bitarray_get_def index_in_ceil)

theorem bitarray_new_zeroed_witness:
  "bitarray_new True True 10 = Some \<lparr>bit_sz = 10, buf = [0, 0]\<rparr>
   \<and> bitarray_get \<lparr>bit_sz = 10, buf = [0, 0]\<rparr> 9 = Inr False
   \<and> bitarray_new True True 0 = Some \<lparr>bit_sz = 0, buf = []\<rparr>"
  using bitarray_new_zeroed [of 10] bitarray_new_zeroed [of 0]
  by (auto simp: bitarray_new_def)

section \<open>Arithmetic of bit indices\<close>

lemma byte_decomp:
  obtains q r where "(n::nat) = 8 * q + r" "r < 8" "n div 8 = q" "n mod 8 = r"
proof
  show "n = 8 * (n div 8) + n mod 8" by simp
  show "n mod 8 < 8" by simp
qed simp_all

lemma byte_compose: "r < 8 \<Longrightarrow> (8 * q + r) div 8 = (q::nat) \<and> (8 * q + r) mod 8 = r"
  by simp

lemma same_byte_diff:
  assumes "(j::nat) div 8 = off div 8" "off \<le> j"
  shows "j - off = j mod 8 - off mod 8"
proof -
  obtain q r where j: "j = 8 * q + r" "j div 8 = q" "j mod 8 = r" by (rule byte_decomp)
  obtain q' r' where o: "off = 8 * q' + r'" "off div 8 = q'" "off mod 8 = r'" by (rule byte_decomp)
  have "q' = q" using assms(1) j(2) o(2) by simp
  then have "j - off = r - r'" using j(1) o(1) by simp
  then show ?thesis using j(3) o(3) by simp
qed

lemma byte_offset:
  assumes "(off::nat) mod 8 + k < 8"
  shows "(off + k) div 8 = off div 8" "(off + k) mod 8 = off mod 8 + k"
proof -
  obtain q r where o: "off = 8 * q + r" "off div 8 = q" "off mod 8 = r" by (rule byte_decomp)
  have lt: "r + k < 8" using assms o(3) by simp
  have e: "off + k = 8 * q + (r + k)" using o(1) by simp
  show "(off + k) div 8 = off div 8"
    unfolding e o(2) using byte_compose [OF lt, of q] by simp
  show "(off + k) mod 8 = off mod 8 + k"
    unfolding e o(3) using byte_compose [OF lt, of q] by simp
qed

lemma end_bit_seven:
  assumes "1 \<le> len" "((off::nat) + len) mod 8 = 0"
  shows "(off + len - 1) mod 8 = 7"
proof -
  obtain q r where x: "off + len - 1 = 8 * q + r" "r < 8" "(off + len - 1) mod 8 = r"
    by (rule byte_decomp)
  have e: "off + len = 8 * q + (r + 1)" using x(1) assms(1) by simp
  have "r = 7"
  proof (rule ccontr)
    assume "r \<noteq> 7"
    then have lt: "r + 1 < 8" using x(2) by simp
    have "(off + len) mod 8 = r + 1"
      unfolding e using byte_compose [OF lt, of q] by simp
    then show False using assms(2) by simp
  qed
  then show ?thesis using x(3) by simp
qed

lemma in_byte_range:
  assumes "(j::nat) div 8 = off div 8"
  shows "(off \<le> j \<and> j < off + len) \<longleftrightarrow> (off mod 8 \<le> j mod 8 \<and> j mod 8 < off mod 8 + len)"
proof -
  obtain q r where j: "j = 8 * q + r" "j div 8 = q" "j mod 8 = r" by (rule byte_decomp)
  obtain q' r' where o: "off = 8 * q' + r'" "off div 8 = q'" "off mod 8 = r'" by (rule byte_decomp)
  have "q' = q" using assms(1) j(2) o(2) by simp
  then have "(off \<le> j \<and> j < off + len) \<longleftrightarrow> (r' \<le> r \<and> r < r' + len)"
    using j(1) o(1) by auto
  then show ?thesis using j(3) o(3) by simp
qed

lemma single_byte_fits:
  assumes "1 \<le> len" "(off::nat) div 8 = (off + len - 1) div 8"
  shows "off mod 8 + len \<le> 8"
proof -
  obtain q r where x: "off + len - 1 = 8 * q + r" "r < 8" "(off + len - 1) div 8 = q"
    by (rule byte_decomp)
  obtain q' r' where o: "off = 8 * q' + r'" "off div 8 = q'" "off mod 8 = r'" by (rule byte_decomp)
  have "q' = q" using assms(2) x(3) o(2) by simp
  then have "r' + len - 1 = r" using x(1) o(1) assms(1) by simp
  then show ?thesis using x(2) o(3) by simp
qed

section \<open>The boundary masks\<close>

lemma le8_cases: "k \<le> 8 \<Longrightarrow> k \<in> {0, 1, 2, 3, 4, 5, 6, 7, 8::nat}"
  by auto

lemma left_mask_nth: "k \<le> 8 \<Longrightarrow> left_mask ! k = mask (8 - k)"
  using le8_cases [of k] by (auto simp: left_mask_def mask_eq_exp_minus_1)

lemma right_mask_nth: "k \<le> 8 \<Longrightarrow> right_mask ! k = NOT (mask k)"
  using le8_cases [of k] by (auto simp: right_mask_def mask_eq_exp_minus_1)

lemma bit_clean_left: "k \<le> 8 \<Longrightarrow> bit (clean_left c k) n \<longleftrightarrow> bit c n \<and> n < 8 - k"
  by (auto simp: clean_left_def left_mask_nth bit_simps)

lemma bit_clean_right: "k \<le> 8 \<Longrightarrow> bit (clean_right c k) n \<longleftrightarrow> bit c n \<and> k \<le> n"
  by (auto simp: clean_right_def right_mask_nth bit_simps dest: bit_imp_le_length)

lemma bit_char_shift_right:
  "bit (char_shift_right sg c k) n \<longleftrightarrow>
     (if sg \<and> 8 - k \<le> n \<and> n < 8 then bit c 7 else bit c (k + n))"
  by (auto simp: char_shift_right_def bit_simps)

section \<open>The byte written by \<open>rotate_single\<close>\<close>

lemma bit_c1:
  assumes "b + s < 8" "e \<le> 8"
  shows "bit (char_shift_right sg (clean_right (clean_left c e) (b + s)) s) j \<longleftrightarrow>
    (if sg \<and> 8 - s \<le> j \<and> j < 8 then bit c 7 \<and> e = 0
     else bit c (s + j) \<and> s + j < 8 - e \<and> b \<le> j)"
  using assms by (auto simp: bit_char_shift_right bit_clean_left bit_clean_right)

lemma bit_c2:
  assumes "b + s \<le> 8" "b \<le> 8"
  shows "bit (push_bit k (clean_right (clean_left c (8 - (b + s))) b)) j \<longleftrightarrow>
    k \<le> j \<and> j < 8 \<and> bit c (j - k) \<and> j - k < b + s \<and> b \<le> j - k"
  using assms by (auto simp: bit_simps bit_clean_left bit_clean_right)

lemma bit_c3: "b \<le> 8 \<Longrightarrow> bit (clean_left c (8 - b)) j \<longleftrightarrow> bit c j \<and> j < b"
  by (auto simp: bit_clean_left)

lemma bit_c4: "bit (clean_right c (8 - e)) j \<longleftrightarrow> bit c j \<and> 8 - e \<le> j"
  by (auto simp: bit_clean_right)

lemma mod_twice: "x < 2 * l \<Longrightarrow> (x::nat) mod l = (if x < l then x else x - l)"
  by (auto simp: not_less le_mod_geq)

lemma rotate_single_byte_bit:
  assumes "b + l + e = 8" "0 < s" "s < l"
  shows "bit (rotate_single_byte sg c b e s) j \<longleftrightarrow>
     (if b \<le> j \<and> j < b + l
      then (sg \<and> e = 0 \<and> bit c 7 \<and> 8 - s \<le> j) \<or> bit c (b + (j - b + s) mod l)
      else bit c j)"
proof -
  have be: "b + s \<le> 8" "e \<le> 8" "b \<le> 8" "b + s < 8" and k: "8 - b - s - e = l - s"
    using assms by auto
  note bits = rotate_single_byte_def bit_or_iff bit_c1 [OF be(4,2)] bit_c2 [OF be(1,3)]
    bit_c3 [OF be(3)] bit_c4 k
  show ?thesis
  proof (cases "b \<le> j \<and> j < b + l")
    case False
    then show ?thesis using assms
      by (auto simp: bits dest: bit_byte_less)
  next
    case True
    then obtain r where r: "j = b + r" "r < l"
      by (metis add_less_cancel_left le_Suc_ex)
    show ?thesis
    proof (cases "r + s < l")
      case low: True
      then have "bit (rotate_single_byte sg c b e s) j \<longleftrightarrow> bit c (b + (r + s))"
        using assms r by (auto simp: bits ac_simps)
      then show ?thesis using assms r low True by (auto dest: bit_byte_less)
    next
      case high: False
      then obtain q where q: "r + s = l + q"
        by (metis le_Suc_ex not_less)
      have m: "(r + s) mod l = q"
        using q r assms by simp
      have a1: "j < 8" "\<not> s + j < 8 - e" "l - s \<le> j" "j - (l - s) = b + q" "b + q < b + s"
        "\<not> j < b" "\<not> 8 - e \<le> j" "e = 0 \<Longrightarrow> 8 - s \<le> j"
        using assms r q by auto
      have "bit (rotate_single_byte sg c b e s) j \<longleftrightarrow>
         (sg \<and> e = 0 \<and> bit c 7) \<or> bit c (b + q)"
        unfolding bits using a1 by auto
      then show ?thesis using r True m a1(8) by auto
    qed
  qed
qed

lemma rotate_single_eq:
  "rotate_single sg a ci b e s =
     a\<lparr>buf := (buf a)[ci := rotate_single_byte sg (buf a ! ci) b e (nat s)]\<rparr>"
  by (simp add: rotate_single_def rotate_single_byte_def Let_def)

section \<open>What \<open>bitarray_rotate\<close> does to the buffer\<close>

lemma single_byte_geometry:
  assumes "1 \<le> len" "(off::nat) div 8 = (off + len - 1) div 8"
  shows "off mod 8 + len + get_end_bit off len = 8"
proof -
  have le: "off mod 8 + len \<le> 8" using single_byte_fits [OF assms] .
  have m: "(off + len) mod 8 = (off mod 8 + len) mod 8"
    by (simp add: mod_add_left_eq)
  show ?thesis
  proof (cases "off mod 8 + len = 8")
    case True
    then show ?thesis by (simp add: get_end_bit_def m)
  next
    case False
    then have "off mod 8 + len < 8" using le by simp
    then show ?thesis using assms(1) by (simp add: get_end_bit_def m)
  qed
qed

lemma bitarray_rotate_single:
  assumes "off + len \<le> bit_sz a" "2 \<le> len" "off div 8 = (off + len - 1) div 8"
    and "amt mod int len \<noteq> 0"
  shows "bitarray_rotate sg a off len amt =
     Inr (a\<lparr>buf := (buf a)[off div 8 :=
       rotate_single_byte sg (buf a ! (off div 8)) (off mod 8) (get_end_bit off len)
         (nat (amt mod int len))]\<rparr>)"
proof -
  have "len \<le> 8" using single_byte_fits [of len off] assms by simp
  moreover have "0 \<le> amt mod int len" "amt mod int len < int len" using assms(2) by simp_all
  ultimately have "(amt mod int len) smod 8 = amt mod int len"
    by (simp add: smod_nonneg)
  then show ?thesis using assms
    by (simp add: bitarray_rotate_def get_shift_eq get_char_index_def Let_def rotate_single_eq)
qed

lemma bitarray_rotate_noop:
  assumes "len < 2 \<or> amt mod int len = 0 \<or> off div 8 \<noteq> (off + len - 1) div 8
     \<or> bit_sz a < off + len"
  shows "bitarray_rotate sg a off len amt = Inr a"
  using assms
  by (auto simp: bitarray_rotate_def get_shift_eq get_char_index_def Let_def)

lemma shift_bounds:
  assumes "2 \<le> len" "amt mod int len \<noteq> 0"
  shows "0 < nat (amt mod int len)" "nat (amt mod int len) < len"
proof -
  have a: "0 \<le> amt mod int len" and b: "amt mod int len < int len"
    using assms(1) by simp_all
  from a assms(2) have c: "0 < amt mod int len" by simp
  then show "0 < nat (amt mod int len)" by simp
  show "nat (amt mod int len) < len" using a b by (simp add: nat_less_iff)
qed

lemma range_in_byte:
  assumes "1 \<le> len" "(off::nat) div 8 = (off + len - 1) div 8" "off \<le> j" "j < off + len"
  shows "j div 8 = off div 8"
proof -
  have "off div 8 \<le> j div 8" using assms(3) by (rule div_le_mono)
  moreover have "j div 8 \<le> (off + len - 1) div 8" using assms(4) by (intro div_le_mono) simp
  ultimately show ?thesis using assms(2) by simp
qed

lemma bitarray_rotate_outside:
  "\<exists>a'. bitarray_rotate sg a off len amt = Inr a' \<and> bit_sz a' = bit_sz a
      \<and> length (buf a') = length (buf a)
      \<and> (\<forall>j. \<not> (off \<le> j \<and> j < off + len) \<longrightarrow> buffer_bit a' j = buffer_bit a j)"
proof (cases "len < 2 \<or> amt mod int len = 0 \<or> off div 8 \<noteq> (off + len - 1) div 8
     \<or> bit_sz a < off + len")
  case True
  then show ?thesis by (simp add: bitarray_rotate_noop)
next
  case False
  then have h: "off + len \<le> bit_sz a" "2 \<le> len" "off div 8 = (off + len - 1) div 8"
    "amt mod int len \<noteq> 0" by auto
  let ?s = "nat (amt mod int len)"
  let ?c' = "rotate_single_byte sg (buf a ! (off div 8)) (off mod 8) (get_end_bit off len) ?s"
  let ?a' = "a\<lparr>buf := (buf a)[off div 8 := ?c']\<rparr>"
  have geo: "off mod 8 + len + get_end_bit off len = 8"
    using single_byte_geometry [of len off] h by simp
  have s: "0 < ?s" "?s < len" using shift_bounds [OF h(2,4)] .
  have "buffer_bit ?a' j = buffer_bit a j" if out: "\<not> (off \<le> j \<and> j < off + len)" for j
  proof (cases "j div 8 = off div 8 \<and> off div 8 < length (buf a)")
    case True
    then have nb: "\<not> (off mod 8 \<le> j mod 8 \<and> j mod 8 < off mod 8 + len)"
      using out in_byte_range [of j off len] by simp
    have "bit ?c' (j mod 8) = bit (buf a ! (off div 8)) (j mod 8)"
      by (simp only: rotate_single_byte_bit [OF geo s] nb if_False)
    then show ?thesis using True by (simp add: buffer_bit_def)
  next
    case False
    then show ?thesis by (auto simp: buffer_bit_def list_update_beyond not_less)
  qed
  then show ?thesis using bitarray_rotate_single [OF h, of sg] by simp
qed

lemma end_bit_zero:
  "get_end_bit off len = 0 \<longleftrightarrow> (off + len) mod 8 = 0"
proof -
  have "(off + len) mod 8 < 8" by simp
  then show ?thesis
    by (cases "(off + len) mod 8 = 0") (simp_all add: get_end_bit_def)
qed

lemma bitarray_rotate_bits:
  assumes "wf_bitarray a" "off + len \<le> bit_sz a" "1 \<le> len"
    and "off div 8 = (off + len - 1) div 8"
    and "\<not> sg \<or> (off + len) mod 8 \<noteq> 0 \<or> \<not> buffer_bit a (off + len - 1)"
  shows "\<exists>a'. bitarray_rotate sg a off len amt = Inr a' \<and> bit_sz a' = bit_sz a
      \<and> length (buf a') = length (buf a)
      \<and> (\<forall>j. off \<le> j \<and> j < off + len \<longrightarrow>
            buffer_bit a' j = buffer_bit a (off + (j - off + nat (amt mod int len)) mod len))"
proof (cases "len < 2 \<or> amt mod int len = 0")
  case True
  have same: "buffer_bit a j = buffer_bit a (off + (j - off + nat (amt mod int len)) mod len)"
    if "off \<le> j" "j < off + len" for j
  proof (cases "amt mod int len = 0")
    case True
    then show ?thesis using that by simp
  next
    case False
    then have "len = 1" using True assms(3) by simp
    moreover from this have "j = off" using that by simp
    ultimately show ?thesis by simp
  qed
  have "bitarray_rotate sg a off len amt = Inr a"
    by (rule bitarray_rotate_noop) (use True in auto)
  with same show ?thesis by blast
next
  case False
  then have h: "off + len \<le> bit_sz a" "2 \<le> len" "off div 8 = (off + len - 1) div 8"
    "amt mod int len \<noteq> 0" using assms by auto
  let ?s = "nat (amt mod int len)"
  let ?c = "buf a ! (off div 8)"
  let ?c' = "rotate_single_byte sg ?c (off mod 8) (get_end_bit off len) ?s"
  let ?a' = "a\<lparr>buf := (buf a)[off div 8 := ?c']\<rparr>"
  have geo: "off mod 8 + len + get_end_bit off len = 8"
    using single_byte_geometry [of len off] h by simp
  have s: "0 < ?s" "?s < len" using shift_bounds [OF h(2,4)] .
  have idx: "off div 8 < length (buf a)"
    using wf_index [OF assms(1), of off] assms(2,3) by simp
  have good: "\<not> (sg \<and> get_end_bit off len = 0 \<and> bit ?c 7)"
  proof
    assume bad: "sg \<and> get_end_bit off len = 0 \<and> bit ?c 7"
    then have z: "(off + len) mod 8 = 0" by (simp add: end_bit_zero)
    then have "(off + len - 1) mod 8 = 7" using end_bit_seven assms(3) by simp
    then have "buffer_bit a (off + len - 1)"
      using bad assms(4) by (simp add: buffer_bit_def)
    then show False using assms(5) bad z by simp
  qed
  have "buffer_bit ?a' j = buffer_bit a (off + (j - off + ?s) mod len)"
    if inr: "off \<le> j" "j < off + len" for j
  proof -
    let ?k = "(j mod 8 - off mod 8 + ?s) mod len"
    have jb: "j div 8 = off div 8"
      using range_in_byte [OF assms(3,4) inr] .
    have r: "off mod 8 \<le> j mod 8 \<and> j mod 8 < off mod 8 + len"
      using in_byte_range [OF jb, of len] inr by simp
    have d: "j - off = j mod 8 - off mod 8"
      using same_byte_diff [OF jb inr(1)] .
    have "?k < len" using h(2) by simp
    then have lt: "off mod 8 + ?k < 8" using geo by simp
    have "buffer_bit ?a' j = bit ?c' (j mod 8)"
      using idx jb by (simp add: buffer_bit_def)
    also have "\<dots> = bit ?c (off mod 8 + (j mod 8 - off mod 8 + ?s) mod len)"
    proof -
      have "bit ?c' (j mod 8) \<longleftrightarrow>
          (sg \<and> get_end_bit off len = 0 \<and> bit ?c 7 \<and> 8 - ?s \<le> j mod 8)
          \<or> bit ?c (off mod 8 + (j mod 8 - off mod 8 + ?s) mod len)"
        by (simp only: rotate_single_byte_bit [OF geo s] r if_True simp_thms)
      with good show ?thesis by blast
    qed
    also have "\<dots> = buffer_bit a (off + ?k)"
      by (simp only: buffer_bit_def byte_offset [OF lt])
    also have "\<dots> = buffer_bit a (off + (j - off + ?s) mod len)"
      by (simp only: d)
    finally show ?thesis .
  qed
  then show ?thesis using bitarray_rotate_single [OF h, of sg] by simp
qed

text \<open>
  Where \<open>bitarray_rotate\<close> calls \<open>rotate_single\<close> on a well-formed array, the byte index
  is inside the buffer, \<^verbatim>\<open>shiftBit\<close> is the whole shift and is positive, every index
  into \<^verbatim>\<open>left_mask\<close> and \<^verbatim>\<open>right_mask\<close> is at most 8, and no subtraction of the
  source goes below zero.
\<close>

lemma rotate_single_call_in_range:
  assumes "wf_bitarray a" "off + len \<le> bit_sz a" "2 \<le> len"
    and "get_char_index off = get_char_index (off + len - 1)"
    and "get_shift len amt = Inr shift" "shift \<noteq> 0"
  shows "get_char_index off < length (buf a)"
    and "0 < shift smod 8" "shift smod 8 = shift"
    and "off mod 8 + nat (shift smod 8) < 8"
    and "get_end_bit off len \<le> 8"
    and "off mod 8 + nat (shift smod 8) + get_end_bit off len < 8"
proof -
  have sb: "off div 8 = (off + len - 1) div 8"
    using assms(4) by (simp add: get_char_index_def)
  have len: "1 \<le> len" "0 < len" using assms(3) by simp_all
  have s: "shift = amt mod int len" using assms(5) len(2) by (simp add: get_shift_eq)
  then have nz: "amt mod int len \<noteq> 0" using assms(6) by simp
  have geo: "off mod 8 + len + get_end_bit off len = 8"
    using single_byte_geometry [OF len(1) sb] .
  have b: "0 < nat (amt mod int len)" "nat (amt mod int len) < len"
    using shift_bounds [OF assms(3) nz] .
  then have r: "0 < shift" "shift < 8" using s geo by simp_all
  show "get_char_index off < length (buf a)"
    using wf_index [OF assms(1), of off] assms(2,3) by (simp add: get_char_index_def)
  show e: "shift smod 8 = shift" using r by (simp add: smod_nonneg)
  show "0 < shift smod 8" using r e by simp
  show "off mod 8 + nat (shift smod 8) < 8" using b geo s e by simp
  show "get_end_bit off len \<le> 8" using geo by simp
  show "off mod 8 + nat (shift smod 8) + get_end_bit off len < 8" using b geo s e by simp
qed

section \<open>Claims about \<open>bitarray_rotate\<close>\<close>

text \<open>
  Claim C3. For an in-range call whose subrange spans more than one byte
  (\<open>offset / 8 \<noteq> (offset + length - 1) / 8\<close>), \<open>bitarray_rotate\<close> returns with the
  whole array unchanged, for every amount.
\<close>

theorem rotate_multi_byte_unchanged:
  assumes "off + len \<le> bit_sz a"
    and "get_char_index off \<noteq> get_char_index (off + len - 1)"
  shows "bitarray_rotate sg a off len amt = Inr a"
  by (rule bitarray_rotate_noop) (use assms in \<open>simp add: get_char_index_def\<close>)

theorem rotate_multi_byte_unchanged_witness:
  "(4::nat) + 8 \<le> bit_sz \<lparr>bit_sz = 16, buf = [0x10, 0]\<rparr>
   \<and> get_char_index 4 \<noteq> get_char_index (4 + 8 - 1)
   \<and> bitarray_rotate True \<lparr>bit_sz = 16, buf = [0x10, 0]\<rparr> 4 8 1
       = Inr \<lparr>bit_sz = 16, buf = [0x10, 0]\<rparr>"
proof -
  have a: "4 + 8 \<le> bit_sz \<lparr>bit_sz = 16, buf = [0x10, 0]\<rparr>" by simp
  have b: "get_char_index 4 \<noteq> get_char_index (4 + 8 - 1)" by (simp add: get_char_index_def)
  show ?thesis using rotate_multi_byte_unchanged [OF a b, of True 1] a b by simp
qed

text \<open>
  Claim C5. For an in-range call of \<open>bitarray_rotate\<close>, every bit at an index outside
  \<open>[offset, offset + length)\<close> reads the same after the call as before it.
\<close>

theorem rotate_frame:
  assumes "off + len \<le> bit_sz a"
  shows "\<exists>a'. bitarray_rotate sg a off len amt = Inr a' \<and> bit_sz a' = bit_sz a
      \<and> (\<forall>j. j < bit_sz a \<and> (j < off \<or> off + len \<le> j) \<longrightarrow>
            bitarray_get a' j = bitarray_get a j)"
proof -
  obtain a' where a': "bitarray_rotate sg a off len amt = Inr a'" "bit_sz a' = bit_sz a"
    "\<And>j. \<not> (off \<le> j \<and> j < off + len) \<Longrightarrow> buffer_bit a' j = buffer_bit a j"
    using bitarray_rotate_outside [of sg a off len amt] by blast
  have "bitarray_get a' j = bitarray_get a j" if "j < bit_sz a" "j < off \<or> off + len \<le> j" for j
    using that a'(2) a'(3) [of j] by (auto simp: bitarray_get_eq)
  then show ?thesis using a'(1,2) by blast
qed

theorem rotate_frame_witness:
  "(2::nat) + 4 \<le> bit_sz \<lparr>bit_sz = 8, buf = [0x56]\<rparr>
   \<and> (\<exists>a'. bitarray_rotate True \<lparr>bit_sz = 8, buf = [0x56]\<rparr> 2 4 1 = Inr a'
         \<and> a' \<noteq> \<lparr>bit_sz = 8, buf = [0x56]\<rparr>
         \<and> bitarray_get a' 1 = bitarray_get \<lparr>bit_sz = 8, buf = [0x56]\<rparr> 1
         \<and> bitarray_get a' 6 = bitarray_get \<lparr>bit_sz = 8, buf = [0x56]\<rparr> 6)"
proof -
  have a: "2 + 4 \<le> bit_sz \<lparr>bit_sz = 8, buf = [0x56]\<rparr>" by simp
  have r: "bitarray_rotate True \<lparr>bit_sz = 8, buf = [0x56]\<rparr> 2 4 1 = Inr \<lparr>bit_sz = 8, buf = [0x6A]\<rparr>"
    by code_simp
  show ?thesis using rotate_frame [OF a, of True 1] a r by auto
qed

text \<open>
  Claim C8. An in-range call of \<open>bitarray_rotate\<close> leaves the array unchanged when the
  length is 0 or 1, for any amount, and when the amount normalizes to 0, as every
  multiple of the length does.
\<close>

theorem rotate_identity:
  assumes "off + len \<le> bit_sz a"
  shows "(len = 0 \<or> len = 1 \<or> get_shift len amt = Inr 0
            \<longrightarrow> bitarray_rotate sg a off len amt = Inr a)
         \<and> bitarray_rotate sg a off len (k * int len) = Inr a"
proof -
  have "bitarray_rotate sg a off len amt = Inr a"
    if "len = 0 \<or> len = 1 \<or> get_shift len amt = Inr 0"
    using that by (auto simp: bitarray_rotate_def)
  moreover have "bitarray_rotate sg a off len (k * int len) = Inr a"
    by (rule bitarray_rotate_noop) simp
  ultimately show ?thesis by blast
qed

theorem rotate_identity_witness:
  "(0::nat) + 7 \<le> bit_sz \<lparr>bit_sz = 7, buf = [2]\<rparr>
   \<and> get_shift 7 14 = Inr 0
   \<and> bitarray_rotate True \<lparr>bit_sz = 7, buf = [2]\<rparr> 0 7 14 = Inr \<lparr>bit_sz = 7, buf = [2]\<rparr>
   \<and> bitarray_rotate True \<lparr>bit_sz = 7, buf = [2]\<rparr> 0 7 (2 * int 7) = Inr \<lparr>bit_sz = 7, buf = [2]\<rparr>"
proof -
  have a: "0 + 7 \<le> bit_sz \<lparr>bit_sz = 7, buf = [2]\<rparr>" by simp
  have g: "get_shift 7 14 = Inr 0" by (simp add: get_shift_eq)
  show ?thesis using rotate_identity [OF a, of 14 True 2] a g by simp
qed

section \<open>Padding bits\<close>

lemma last_byte_bit:
  assumes "length (buf x) = Suc q" "p < 8"
  shows "bit (last (buf x)) p \<longleftrightarrow> buffer_bit x (8 * q + p)"
proof -
  have "buf x \<noteq> []" using assms(1) by auto
  then have "last (buf x) = buf x ! q" using assms(1) by (simp add: last_conv_nth)
  then show ?thesis using byte_compose [OF assms(2), of q] by (simp add: buffer_bit_def)
qed

lemma padding_index:
  assumes "(n::nat) mod 8 \<le> p"
  shows "n \<le> 8 * (n div 8) + p"
proof -
  obtain q r where n: "n = 8 * q + r" "n div 8 = q" "n mod 8 = r" by (rule byte_decomp)
  show ?thesis unfolding n(2) using n(1) assms n(3) by simp
qed

text \<open>
  Claim C10. When \<open>bit_sz\<close> is not a multiple of 8, the padding bits, at positions
  \<open>p \<ge> bit_sz mod 8\<close> of the last byte of the buffer, are left as they were by
  \<open>bitarray_set\<close> at an index below \<open>bit_sz\<close> and by an in-range \<open>bitarray_rotate\<close>.
\<close>

theorem padding_preserved:
  assumes "wf_bitarray a" and "bit_sz a mod 8 \<noteq> 0"
    and "bit_sz a mod 8 \<le> p" and "p < 8"
  shows "(index < bit_sz a \<longrightarrow>
            (\<exists>a'. bitarray_set a index v = Inr a' \<and> length (buf a') = length (buf a)
               \<and> (bit (last (buf a')) p \<longleftrightarrow> bit (last (buf a)) p)))
       \<and> (off + len \<le> bit_sz a \<longrightarrow>
            (\<exists>a'. bitarray_rotate sg a off len amt = Inr a' \<and> length (buf a') = length (buf a)
               \<and> (bit (last (buf a')) p \<longleftrightarrow> bit (last (buf a)) p)))"
proof -
  let ?J = "8 * (bit_sz a div 8) + p"
  have len: "length (buf a) = Suc (bit_sz a div 8)"
    using assms(1,2) by (simp add: wf_bitarray_def)
  have J: "bit_sz a \<le> ?J" using padding_index [OF assms(3)] .
  have pad: "bit (last (buf a')) p \<longleftrightarrow> bit (last (buf a)) p"
    if "length (buf a') = length (buf a)" "buffer_bit a' ?J = buffer_bit a ?J" for a'
    using that len by (simp add: last_byte_bit [OF _ assms(4)])
  have "\<exists>a'. bitarray_set a index v = Inr a' \<and> length (buf a') = length (buf a)
               \<and> (bit (last (buf a')) p \<longleftrightarrow> bit (last (buf a)) p)"
    if i: "index < bit_sz a"
  proof -
    obtain a' where a': "bitarray_set a index v = Inr a'" "length (buf a') = length (buf a)"
      "\<And>j. buffer_bit a' j = (if j = index then v else buffer_bit a j)"
      using bitarray_set_bit [OF assms(1) i] by blast
    have "buffer_bit a' ?J = buffer_bit a ?J" using a'(3) [of ?J] i J by simp
    then show ?thesis using a'(1,2) pad by blast
  qed
  moreover have "\<exists>a'. bitarray_rotate sg a off len amt = Inr a' \<and> length (buf a') = length (buf a)
               \<and> (bit (last (buf a')) p \<longleftrightarrow> bit (last (buf a)) p)"
    if r: "off + len \<le> bit_sz a"
  proof -
    obtain a' where a': "bitarray_rotate sg a off len amt = Inr a'"
      "length (buf a') = length (buf a)"
      "\<And>j. \<not> (off \<le> j \<and> j < off + len) \<Longrightarrow> buffer_bit a' j = buffer_bit a j"
      using bitarray_rotate_outside [of sg a off len amt] by blast
    have "buffer_bit a' ?J = buffer_bit a ?J" using a'(3) [of ?J] r J by simp
    then show ?thesis using a'(1,2) pad by blast
  qed
  ultimately show ?thesis by blast
qed

theorem padding_preserved_witness:
  "wf_bitarray \<lparr>bit_sz = 6, buf = [0x83]\<rparr> \<and> bit_sz \<lparr>bit_sz = 6, buf = [0x83]\<rparr> mod 8 \<noteq> 0
   \<and> bit_sz \<lparr>bit_sz = 6, buf = [0x83]\<rparr> mod 8 \<le> 7 \<and> (7::nat) < 8
   \<and> (5::nat) < bit_sz \<lparr>bit_sz = 6, buf = [0x83]\<rparr>
   \<and> (\<exists>a'. bitarray_set \<lparr>bit_sz = 6, buf = [0x83]\<rparr> 5 True = Inr a'
         \<and> (bit (last (buf a')) 7 \<longleftrightarrow> bit (last (buf \<lparr>bit_sz = 6, buf = [0x83]\<rparr>)) 7))
   \<and> (0::nat) + 6 \<le> bit_sz \<lparr>bit_sz = 6, buf = [0x83]\<rparr>
   \<and> (\<exists>a'. bitarray_rotate True \<lparr>bit_sz = 6, buf = [0x83]\<rparr> 0 6 1 = Inr a'
         \<and> (bit (last (buf a')) 7 \<longleftrightarrow> bit (last (buf \<lparr>bit_sz = 6, buf = [0x83]\<rparr>)) 7))"
proof -
  let ?a = "\<lparr>bit_sz = 6, buf = [0x83]\<rparr>"
  have h: "wf_bitarray ?a" "bit_sz ?a mod 8 \<noteq> 0" "bit_sz ?a mod 8 \<le> 7" "(7::nat) < 8"
    by (simp_all add: wf_bitarray_def)
  show ?thesis
    using padding_preserved [OF h, of 5 True 0 6 True 1] h by auto
qed

section \<open>The reference rotation, bit by bit\<close>

lemma rotate_left_one_loop_bits:
  "wf_bitarray a \<Longrightarrow> bound \<le> bit_sz a \<Longrightarrow> i < bound \<Longrightarrow>
   \<exists>a'. rotate_left_one_loop a i bound = Inr (a', bound - 1) \<and> wf_bitarray a'
      \<and> bit_sz a' = bit_sz a
      \<and> (\<forall>j. buffer_bit a' j =
             (if i \<le> j \<and> j < bound - 1 then buffer_bit a (j + 1) else buffer_bit a j))"
proof (induction a i bound rule: rotate_left_one_loop.induct)
  case (1 a i bound)
  show ?case
  proof (cases "i + 1 < bound")
    case False
    then have e: "bound - 1 = i" using "1.prems" by simp
    have "rotate_left_one_loop a i bound = Inr (a, i)"
      using False by (subst rotate_left_one_loop.simps) simp
    then show ?thesis using "1.prems"(1) e by auto
  next
    case True
    let ?b = "buffer_bit a (i + 1)"
    have g: "bitarray_get a (i + 1) = Inr ?b"
      using True "1.prems"(2) by (simp add: bitarray_get_eq)
    have ilt: "i < bit_sz a" using "1.prems" by simp
    obtain a1 where a1: "bitarray_set a i ?b = Inr a1" "bit_sz a1 = bit_sz a" "wf_bitarray a1"
      "\<And>j. buffer_bit a1 j = (if j = i then ?b else buffer_bit a j)"
      using bitarray_set_bit [OF "1.prems"(1) ilt, of ?b] by blast
    have b1: "bound \<le> bit_sz a1" using a1(2) "1.prems"(2) by simp
    obtain a' where a': "rotate_left_one_loop a1 (i + 1) bound = Inr (a', bound - 1)"
      "wf_bitarray a'" "bit_sz a' = bit_sz a1"
      "\<And>j. buffer_bit a' j =
         (if i + 1 \<le> j \<and> j < bound - 1 then buffer_bit a1 (j + 1) else buffer_bit a1 j)"
      using "1.IH" [OF True g a1(1) a1(3) b1 True] by blast
    have u: "rotate_left_one_loop a i bound = rotate_left_one_loop a1 (i + 1) bound"
      using True g a1(1) by (subst rotate_left_one_loop.simps) simp
    have "buffer_bit a' j =
        (if i \<le> j \<and> j < bound - 1 then buffer_bit a (j + 1) else buffer_bit a j)" for j
      using True by (auto simp: a'(4) a1(4))
    then show ?thesis using u a'(1,2,3) a1(2) by simp
  qed
qed

lemma mod_self_succ:
  assumes "m < (len::nat)"
  shows "(m + 1) mod len = (if m + 1 = len then 0 else m + 1)"
  using assms by auto

lemma bitarray_rotate_left_one_bits:
  assumes "wf_bitarray a" "off + len \<le> bit_sz a" "1 \<le> len"
  shows "\<exists>a'. bitarray_rotate_left_one a off len = Inr a' \<and> wf_bitarray a'
      \<and> bit_sz a' = bit_sz a
      \<and> (\<forall>j. buffer_bit a' j =
             (if off \<le> j \<and> j < off + len then buffer_bit a (off + (j - off + 1) mod len)
              else buffer_bit a j))"
proof -
  let ?first = "buffer_bit a off"
  have o: "off < off + len" "off < bit_sz a" using assms(2,3) by simp_all
  have g: "bitarray_get a off = Inr ?first" using o(2) by (simp add: bitarray_get_eq)
  obtain a1 where a1: "rotate_left_one_loop a off (off + len) = Inr (a1, off + len - 1)"
    "wf_bitarray a1" "bit_sz a1 = bit_sz a"
    "\<And>j. buffer_bit a1 j =
       (if off \<le> j \<and> j < off + len - 1 then buffer_bit a (j + 1) else buffer_bit a j)"
    using rotate_left_one_loop_bits [OF assms(1,2) o(1)] by blast
  have l: "off + len - 1 < bit_sz a1" using a1(3) assms(2,3) by simp
  obtain a' where a': "bitarray_set a1 (off + len - 1) ?first = Inr a'" "bit_sz a' = bit_sz a1"
    "wf_bitarray a'"
    "\<And>j. buffer_bit a' j = (if j = off + len - 1 then ?first else buffer_bit a1 j)"
    using bitarray_set_bit [OF a1(2) l, of ?first] by blast
  have r: "bitarray_rotate_left_one a off len = Inr a'"
    using g a1(1) a'(1) by (simp add: bitarray_rotate_left_one_def)
  have "buffer_bit a' j =
      (if off \<le> j \<and> j < off + len then buffer_bit a (off + (j - off + 1) mod len)
       else buffer_bit a j)" for j
  proof (cases "off \<le> j \<and> j < off + len")
    case False
    then show ?thesis using assms(3) by (auto simp: a'(4) a1(4))
  next
    case True
    then have m: "j - off < len" by auto
    show ?thesis
    proof (cases "j = off + len - 1")
      case last: True
      then have "j - off + 1 = len" using assms(3) by simp
      then have "(j - off + 1) mod len = 0" by simp
      then have idx: "off + (j - off + 1) mod len = off" by simp
      have "buffer_bit a' j = buffer_bit a off" using last by (simp add: a'(4))
      then show ?thesis by (simp only: idx True if_True simp_thms)
    next
      case nl: False
      then have lt: "j < off + len - 1" using True by auto
      then have "j - off + 1 < len" using True by auto
      then have "(j - off + 1) mod len = j - off + 1" by (rule mod_less)
      then have idx: "off + (j - off + 1) mod len = j + 1" using True by simp
      have "buffer_bit a' j = buffer_bit a (j + 1)"
        using True nl lt by (simp add: a'(4) a1(4))
      then show ?thesis by (simp only: idx True if_True simp_thms)
    qed
  qed
  then show ?thesis using r a'(2,3) a1(3) by simp
qed

lemma bitarray_rotate_left_bits:
  assumes "off + len \<le> bit_sz a" "1 \<le> len"
  shows "wf_bitarray a \<Longrightarrow>
    \<exists>a'. bitarray_rotate_left a off len k = Inr a' \<and> wf_bitarray a'
      \<and> bit_sz a' = bit_sz a
      \<and> (\<forall>j. buffer_bit a' j =
             (if off \<le> j \<and> j < off + len then buffer_bit a (off + (j - off + k) mod len)
              else buffer_bit a j))"
  using assms
proof (induction k arbitrary: a)
  case 0
  then show ?case by auto
next
  case (Suc k)
  obtain a1 where a1: "bitarray_rotate_left_one a off len = Inr a1" "wf_bitarray a1"
    "bit_sz a1 = bit_sz a"
    "\<And>j. buffer_bit a1 j =
       (if off \<le> j \<and> j < off + len then buffer_bit a (off + (j - off + 1) mod len)
        else buffer_bit a j)"
    using bitarray_rotate_left_one_bits [OF Suc.prems(1,2,3)] by blast
  have b1: "off + len \<le> bit_sz a1" using a1(3) Suc.prems(2) by simp
  obtain a' where a': "bitarray_rotate_left a1 off len k = Inr a'" "wf_bitarray a'"
    "bit_sz a' = bit_sz a1"
    "\<And>j. buffer_bit a' j =
       (if off \<le> j \<and> j < off + len then buffer_bit a1 (off + (j - off + k) mod len)
        else buffer_bit a1 j)"
    using Suc.IH [OF a1(2) b1 Suc.prems(3)] by blast
  have lp: "0 < len" using Suc.prems(3) by simp
  have "buffer_bit a' j =
      (if off \<le> j \<and> j < off + len then buffer_bit a (off + (j - off + Suc k) mod len)
       else buffer_bit a j)" for j
  proof (cases "off \<le> j \<and> j < off + len")
    case False
    then show ?thesis by (simp only: a'(4) a1(4) if_False)
  next
    case True
    let ?m = "(j - off + k) mod len"
    have m: "?m < len" using lp by simp
    have "buffer_bit a' j = buffer_bit a1 (off + ?m)" using True by (simp add: a'(4))
    also have "\<dots> = buffer_bit a (off + (?m + 1) mod len)" using m by (simp add: a1(4))
    also have "(?m + 1) mod len = (j - off + Suc k) mod len"
      by (simp add: mod_Suc_eq)
    finally show ?thesis using True by simp
  qed
  then show ?case using a1(1,3) a'(1,2,3) by simp
qed

lemma bitarray_rotate_old_bits:
  assumes "wf_bitarray a" "off + len \<le> bit_sz a" "1 \<le> len"
  shows "\<exists>a'. bitarray_rotate_old a off len amt = Inr a' \<and> wf_bitarray a'
      \<and> bit_sz a' = bit_sz a
      \<and> (\<forall>j. buffer_bit a' j =
             (if off \<le> j \<and> j < off + len
              then buffer_bit a (off + (j - off + nat ((- amt) mod int len)) mod len)
              else buffer_bit a j))"
proof -
  have "bitarray_rotate_old a off len amt =
      bitarray_rotate_left a off len (nat ((- amt) mod int len))"
    using assms(2,3) by (simp add: bitarray_rotate_old_def modulo_eq)
  then show ?thesis
    using bitarray_rotate_left_bits [OF assms(2,3,1), of "nat ((- amt) mod int len)"]
    by simp
qed

lemma buf_eqI:
  assumes "length (buf a) = length (buf b)"
    and "\<And>j. buffer_bit a j = buffer_bit b j"
  shows "buf a = buf b"
proof (rule nth_equalityI)
  show "length (buf a) = length (buf b)" by fact
  fix i assume "i < length (buf a)"
  show "buf a ! i = buf b ! i"
  proof (rule bit_word_eqI)
    fix n assume "n < LENGTH(8)"
    then have n: "n < 8" by simp
    show "bit (buf a ! i) n \<longleftrightarrow> bit (buf b ! i) n"
      using assms(2) [of "8 * i + n"] byte_compose [OF n, of i]
      by (simp add: buffer_bit_def)
  qed
qed

lemma bitarray_eqI:
  assumes "bit_sz a = bit_sz b" "length (buf a) = length (buf b)"
    and "\<And>j. buffer_bit a j = buffer_bit b j"
  shows "a = (b::bitarray)"
proof -
  have "buf a = buf b" using assms(2,3) by (rule buf_eqI)
  then show ?thesis using assms(1) by simp
qed

lemma rotate_back:
  assumes "s < len" "i < (len::nat)"
  shows "((i + len - s) mod len + s) mod len = i"
proof -
  have "((i + len - s) mod len + s) mod len = (i + len - s + s) mod len"
    by (rule mod_add_left_eq)
  also have "i + len - s + s = i + len" using assms(1) by simp
  finally show ?thesis using assms(2) by simp
qed

lemma top_bit_proviso:
  assumes "off + len \<le> bit_sz a" "1 \<le> len"
    and "\<not> sg \<or> (off + len) mod 8 \<noteq> 0 \<or> bitarray_get a (off + len - 1) = Inr False"
  shows "\<not> sg \<or> (off + len) mod 8 \<noteq> 0 \<or> \<not> buffer_bit a (off + len - 1)"
proof -
  have "off + len - 1 < bit_sz a" using assms(1,2) by simp
  then have "bitarray_get a (off + len - 1) = Inr (buffer_bit a (off + len - 1))"
    by (rule bitarray_get_eq)
  then show ?thesis using assms(3) by auto
qed

section \<open>The direction of the rotation\<close>

text \<open>
  Claim C1, as stated: an in-range call moves the bit at index \<open>offset + i\<close> to index
  \<open>offset + ((i + shift) mod length)\<close>, with \<open>shift = get_shift length amount\<close>. Three
  calls show otherwise.
  \<^item> The 6-bit array \<open>0x03\<close>, rotated by 1: bit 0 is set before and bit 1 is clear
    after. The byte becomes \<open>0x21\<close>, as the test \<^verbatim>\<open>rotate6\<close> of the source expects: the
    bits have moved towards lower indices.
  \<^item> The 16-bit array \<open>0x01 0x00\<close>, rotated as a whole by 1: nothing moves, since the
    subrange spans two bytes.
  \<^item> The 8-bit array \<open>0x80\<close>, rotated by 1 with a signed \<^verbatim>\<open>char\<close>: bit 7 is set before
    and bit 0 is clear after. The byte becomes \<open>0xC0\<close>: the arithmetic shift of \<open>c1\<close>
    keeps bit 7 set, the place where bit 0, which was clear, lands in the direction
    of the code.
\<close>

theorem rotate_right_counterexample:
  "get_shift 6 1 = Inr 1
   \<and> bitarray_get \<lparr>bit_sz = 6, buf = [0x03]\<rparr> (0 + 0) = Inr True
   \<and> bitarray_rotate True \<lparr>bit_sz = 6, buf = [0x03]\<rparr> 0 6 1 = Inr \<lparr>bit_sz = 6, buf = [0x21]\<rparr>
   \<and> bitarray_rotate False \<lparr>bit_sz = 6, buf = [0x03]\<rparr> 0 6 1 = Inr \<lparr>bit_sz = 6, buf = [0x21]\<rparr>
   \<and> bitarray_get \<lparr>bit_sz = 6, buf = [0x21]\<rparr> (0 + (0 + 1) mod 6) = Inr False
   \<and> get_shift 16 1 = Inr 1
   \<and> bitarray_get \<lparr>bit_sz = 16, buf = [0x01, 0x00]\<rparr> (0 + 0) = Inr True
   \<and> bitarray_rotate True \<lparr>bit_sz = 16, buf = [0x01, 0x00]\<rparr> 0 16 1
        = Inr \<lparr>bit_sz = 16, buf = [0x01, 0x00]\<rparr>
   \<and> bitarray_rotate False \<lparr>bit_sz = 16, buf = [0x01, 0x00]\<rparr> 0 16 1
        = Inr \<lparr>bit_sz = 16, buf = [0x01, 0x00]\<rparr>
   \<and> bitarray_get \<lparr>bit_sz = 16, buf = [0x01, 0x00]\<rparr> (0 + (0 + 1) mod 16) = Inr False
   \<and> get_shift 8 1 = Inr 1
   \<and> bitarray_get \<lparr>bit_sz = 8, buf = [0x80]\<rparr> (0 + 7) = Inr True
   \<and> bitarray_rotate True \<lparr>bit_sz = 8, buf = [0x80]\<rparr> 0 8 1 = Inr \<lparr>bit_sz = 8, buf = [0xC0]\<rparr>
   \<and> bitarray_get \<lparr>bit_sz = 8, buf = [0xC0]\<rparr> (0 + (7 + 1) mod 8) = Inr False
   \<and> bitarray_get \<lparr>bit_sz = 8, buf = [0x80]\<rparr> (0 + 0) = Inr False
   \<and> bitarray_get \<lparr>bit_sz = 8, buf = [0xC0]\<rparr> (0 + (0 + 8 - 1) mod 8) = Inr True"
  by code_simp

text \<open>
  Claim C1, amended. For a well-formed array and an in-range call whose subrange lies
  within one byte, \<open>bitarray_rotate\<close> rotates the subrange towards lower indices by
  \<open>shift = get_shift length amount\<close>: for every \<open>i < length\<close>, the bit that was at
  index \<open>offset + i\<close> before the call is at index
  \<open>offset + ((i + length - shift) mod length)\<close> after it. This holds where \<^verbatim>\<open>char\<close> is
  unsigned, or the subrange does not end at the top bit of its byte, or that top bit
  is clear. Subranges that span several bytes are not covered.
\<close>

theorem rotate_single_byte_moves_bits:
  assumes "wf_bitarray a" and "off + len \<le> bit_sz a"
    and "get_char_index off = get_char_index (off + len - 1)"
    and "\<not> sg \<or> (off + len) mod 8 \<noteq> 0 \<or> bitarray_get a (off + len - 1) = Inr False"
    and "i < len"
  shows "\<exists>a' shift. bitarray_rotate sg a off len amt = Inr a'
           \<and> get_shift len amt = Inr (int shift) \<and> shift < len
           \<and> bitarray_get a' (off + (i + len - shift) mod len) = bitarray_get a (off + i)"
proof -
  let ?s = "nat (amt mod int len)"
  let ?j = "off + (i + len - ?s) mod len"
  have len: "1 \<le> len" "0 < len" using assms(5) by simp_all
  have s: "get_shift len amt = Inr (int ?s)" "?s < len"
    using len(2) by (simp_all add: get_shift_eq nat_less_iff)
  have sb: "off div 8 = (off + len - 1) div 8"
    using assms(3) by (simp add: get_char_index_def)
  obtain a' where a': "bitarray_rotate sg a off len amt = Inr a'" "bit_sz a' = bit_sz a"
    "\<And>j. off \<le> j \<and> j < off + len \<Longrightarrow>
        buffer_bit a' j = buffer_bit a (off + (j - off + ?s) mod len)"
    using bitarray_rotate_bits [OF assms(1,2) len(1) sb
        top_bit_proviso [OF assms(2) len(1) assms(4)], of amt]
    by blast
  have j: "off \<le> ?j \<and> ?j < off + len" using len(2) by simp
  have "buffer_bit a' ?j = buffer_bit a (off + (?j - off + ?s) mod len)"
    using a'(3) [OF j] .
  also have "(?j - off + ?s) mod len = i"
    using rotate_back [OF s(2) assms(5)] by simp
  finally have "buffer_bit a' ?j = buffer_bit a (off + i)" .
  moreover have "?j < off + len" using j by (rule conjunct2)
  then have "?j < bit_sz a'" using a'(2) assms(2) by linarith
  moreover have "off + i < bit_sz a" using assms(2,5) by simp
  ultimately have "bitarray_get a' ?j = bitarray_get a (off + i)"
    by (simp add: bitarray_get_eq)
  then show ?thesis using a'(1) s by blast
qed

theorem rotate_single_byte_moves_bits_witness:
  "wf_bitarray \<lparr>bit_sz = 6, buf = [0x03]\<rparr>
   \<and> (0::nat) + 6 \<le> bit_sz \<lparr>bit_sz = 6, buf = [0x03]\<rparr>
   \<and> get_char_index 0 = get_char_index (0 + 6 - 1)
   \<and> (0 + 6) mod 8 \<noteq> (0::nat)
   \<and> (1::nat) < 6
   \<and> (\<exists>a' shift. bitarray_rotate True \<lparr>bit_sz = 6, buf = [0x03]\<rparr> 0 6 1 = Inr a'
         \<and> get_shift 6 1 = Inr (int shift) \<and> shift < 6
         \<and> bitarray_get a' (0 + (1 + 6 - shift) mod 6)
             = bitarray_get \<lparr>bit_sz = 6, buf = [0x03]\<rparr> (0 + 1))
   \<and> bitarray_rotate True \<lparr>bit_sz = 6, buf = [0x03]\<rparr> 0 6 1 = Inr \<lparr>bit_sz = 6, buf = [0x21]\<rparr>
   \<and> bitarray_get \<lparr>bit_sz = 6, buf = [0x21]\<rparr> (0 + (1 + 6 - 1) mod 6) = Inr True"
proof -
  let ?a = "\<lparr>bit_sz = 6, buf = [0x03]\<rparr>"
  have h: "wf_bitarray ?a" "0 + 6 \<le> bit_sz ?a" "get_char_index 0 = get_char_index (0 + 6 - 1)"
    "\<not> True \<or> (0 + 6) mod 8 \<noteq> (0::nat) \<or> bitarray_get ?a (0 + 6 - 1) = Inr False"
    "(1::nat) < 6"
    by (simp_all add: wf_bitarray_def get_char_index_def)
  have c: "bitarray_rotate True ?a 0 6 1 = Inr \<lparr>bit_sz = 6, buf = [0x21]\<rparr>"
    "bitarray_get \<lparr>bit_sz = 6, buf = [0x21]\<rparr> (0 + (1 + 6 - 1) mod 6) = Inr True"
    by code_simp+
  show ?thesis
    using rotate_single_byte_moves_bits [OF h, of 1] h(1,2,3,5) c by simp
qed

section \<open>The optimized rotation against the reference\<close>

text \<open>
  Claim C4, as stated: on a subrange within one byte \<open>bitarray_rotate\<close> and
  \<open>bitarray_rotate_old\<close> give the same buffer for the same amount. On the 6-bit array
  \<open>0x03\<close>, rotated by 1, the first gives \<open>0x21\<close> and the reference \<open>0x06\<close>: they rotate
  in opposite directions. On the 8-bit array \<open>0x80\<close> with a signed \<^verbatim>\<open>char\<close> the first
  gives \<open>0xC0\<close>, the reference \<open>0x01\<close> for the amount 1 and \<open>0x40\<close> for the amount -1.
\<close>

theorem rotate_reference_counterexample:
  "bitarray_rotate True \<lparr>bit_sz = 6, buf = [0x03]\<rparr> 0 6 1 = Inr \<lparr>bit_sz = 6, buf = [0x21]\<rparr>
   \<and> bitarray_rotate False \<lparr>bit_sz = 6, buf = [0x03]\<rparr> 0 6 1 = Inr \<lparr>bit_sz = 6, buf = [0x21]\<rparr>
   \<and> bitarray_rotate_old \<lparr>bit_sz = 6, buf = [0x03]\<rparr> 0 6 1 = Inr \<lparr>bit_sz = 6, buf = [0x06]\<rparr>
   \<and> bitarray_rotate True \<lparr>bit_sz = 8, buf = [0x80]\<rparr> 0 8 1 = Inr \<lparr>bit_sz = 8, buf = [0xC0]\<rparr>
   \<and> bitarray_rotate_old \<lparr>bit_sz = 8, buf = [0x80]\<rparr> 0 8 1 = Inr \<lparr>bit_sz = 8, buf = [0x01]\<rparr>
   \<and> bitarray_rotate_old \<lparr>bit_sz = 8, buf = [0x80]\<rparr> 0 8 (- 1) = Inr \<lparr>bit_sz = 8, buf = [0x40]\<rparr>"
  by code_simp

text \<open>
  Claim C4, amended. For a well-formed array and an in-range call whose subrange lies
  within one byte, \<open>bitarray_rotate\<close> with an amount \<open>k\<close> and the reference
  \<open>bitarray_rotate_old\<close> with the amount \<open>- k\<close> return the same array, where \<^verbatim>\<open>char\<close>
  is unsigned, or the subrange does not end at the top bit of its byte, or that top
  bit is clear.
\<close>

theorem rotate_agrees_with_reversed_reference:
  assumes "wf_bitarray a" and "off + len \<le> bit_sz a"
    and "get_char_index off = get_char_index (off + len - 1)"
    and "\<not> sg \<or> (off + len) mod 8 \<noteq> 0 \<or> bitarray_get a (off + len - 1) = Inr False"
  shows "\<exists>a'. bitarray_rotate sg a off len amt = Inr a'
           \<and> bitarray_rotate_old a off len (- amt) = Inr a'"
proof (cases "len = 0")
  case True
  then show ?thesis using assms(2)
    by (simp add: bitarray_rotate_def bitarray_rotate_old_def)
next
  case False
  then have len: "1 \<le> len" by simp
  let ?s = "nat (amt mod int len)"
  have sb: "off div 8 = (off + len - 1) div 8"
    using assms(3) by (simp add: get_char_index_def)
  obtain a1 where a1: "bitarray_rotate sg a off len amt = Inr a1" "bit_sz a1 = bit_sz a"
    "length (buf a1) = length (buf a)"
    "\<And>j. off \<le> j \<and> j < off + len \<Longrightarrow>
        buffer_bit a1 j = buffer_bit a (off + (j - off + ?s) mod len)"
    using bitarray_rotate_bits [OF assms(1,2) len sb
        top_bit_proviso [OF assms(2) len assms(4)], of amt]
    by blast
  obtain a1' where a1': "bitarray_rotate sg a off len amt = Inr a1'"
    "\<And>j. \<not> (off \<le> j \<and> j < off + len) \<Longrightarrow> buffer_bit a1' j = buffer_bit a j"
    using bitarray_rotate_outside [of sg a off len amt] by blast
  have same: "a1' = a1" using a1(1) a1'(1) by simp
  obtain a2 where a2: "bitarray_rotate_old a off len (- amt) = Inr a2" "wf_bitarray a2"
    "bit_sz a2 = bit_sz a"
    "\<And>j. buffer_bit a2 j =
       (if off \<le> j \<and> j < off + len
        then buffer_bit a (off + (j - off + nat ((- (- amt)) mod int len)) mod len)
        else buffer_bit a j)"
    using bitarray_rotate_old_bits [OF assms(1,2) len, of "- amt"] by blast
  have l: "length (buf a1) = length (buf a2)"
    using a1(3) a2(2,3) assms(1) by (simp add: wf_bitarray_def)
  have "buffer_bit a1 j = buffer_bit a2 j" for j
  proof (cases "off \<le> j \<and> j < off + len")
    case True
    have "buffer_bit a2 j =
        buffer_bit a (off + (j - off + nat ((- (- amt)) mod int len)) mod len)"
      by (simp only: a2(4) True if_True simp_thms)
    also have "- (- amt) = amt" by simp
    finally show ?thesis using a1(4) [OF True] by simp
  next
    case False
    have "buffer_bit a2 j = buffer_bit a j"
      by (simp only: a2(4) False if_False)
    moreover have "buffer_bit a1 j = buffer_bit a j"
      using a1'(2) [OF False] same by simp
    ultimately show ?thesis by simp
  qed
  then have "a1 = a2" using a1(2) a2(3) l by (intro bitarray_eqI) simp_all
  then show ?thesis using a1(1) a2(1) by simp
qed

theorem rotate_agrees_with_reversed_reference_witness:
  "wf_bitarray \<lparr>bit_sz = 8, buf = [0x06]\<rparr>
   \<and> (1::nat) + 4 \<le> bit_sz \<lparr>bit_sz = 8, buf = [0x06]\<rparr>
   \<and> get_char_index 1 = get_char_index (1 + 4 - 1)
   \<and> (1 + 4) mod 8 \<noteq> (0::nat)
   \<and> (\<exists>a'. bitarray_rotate True \<lparr>bit_sz = 8, buf = [0x06]\<rparr> 1 4 1 = Inr a'
         \<and> bitarray_rotate_old \<lparr>bit_sz = 8, buf = [0x06]\<rparr> 1 4 (- 1) = Inr a')
   \<and> bitarray_rotate True \<lparr>bit_sz = 8, buf = [0x06]\<rparr> 1 4 1 = Inr \<lparr>bit_sz = 8, buf = [0x12]\<rparr>
   \<and> bitarray_rotate_old \<lparr>bit_sz = 8, buf = [0x06]\<rparr> 1 4 1 = Inr \<lparr>bit_sz = 8, buf = [0x0C]\<rparr>"
proof -
  let ?a = "\<lparr>bit_sz = 8, buf = [0x06]\<rparr>"
  have h: "wf_bitarray ?a" "1 + 4 \<le> bit_sz ?a" "get_char_index 1 = get_char_index (1 + 4 - 1)"
    "\<not> True \<or> (1 + 4) mod 8 \<noteq> (0::nat) \<or> bitarray_get ?a (1 + 4 - 1) = Inr False"
    by (simp_all add: wf_bitarray_def get_char_index_def)
  have c: "bitarray_rotate True ?a 1 4 1 = Inr \<lparr>bit_sz = 8, buf = [0x12]\<rparr>"
    "bitarray_rotate_old ?a 1 4 1 = Inr \<lparr>bit_sz = 8, buf = [0x0C]\<rparr>"
    by code_simp+
  show ?thesis
    using rotate_agrees_with_reversed_reference [OF h, of 1] h(1,2,3) c by simp
qed

section \<open>The 64-bit functions\<close>

text \<open>
  For a length from 1 to \<open>2 ^ 62\<close> the cast in \<open>modulo_64\<close> keeps the value and the sum
  stays in range: \<open>modulo_64\<close> and \<open>get_shift_64\<close> are the true modulo, as \<open>modulo\<close> and
  \<open>get_shift\<close> are.
\<close>

lemma ssize_t_of_small: "m < 2 ^ 63 \<Longrightarrow> ssize_t_of_size_t m = int m"
  by (simp add: ssize_t_of_size_t_def)

lemma pow62_lt_pow63: "m \<le> 2 ^ 62 \<Longrightarrow> (m::nat) < 2 ^ 63"
proof -
  assume "m \<le> 2 ^ 62"
  moreover have "(2::nat) ^ 62 < 2 ^ 63" by simp
  ultimately show ?thesis by (rule le_less_trans)
qed

lemma modulo_64_eq:
  assumes "0 < m" "m \<le> 2 ^ 62"
  shows "modulo_64 n m = Inr (nat (n mod int m))"
proof -
  have c: "ssize_t_of_size_t m = int m"
    using pow62_lt_pow63 [OF assms(2)] by (rule ssize_t_of_small)
  have m: "0 < int m" using assms(1) by simp
  have b: "- int m < n smod int m" "n smod int m < int m"
    using smod_bounds [OF m, of n] by simp_all
  have "int m \<le> 2 ^ 62" using assms(2) by (simp add: of_nat_le_iff [of m "2 ^ 62", symmetric] del: of_nat_le_iff)
  moreover have "(2::int) ^ 63 = 2 * 2 ^ 62" by simp
  ultimately have no: "n smod int m + int m < 2 ^ 63" using b(2) by linarith
  have nn: "0 \<le> n smod int m + int m" using b(1) by linarith
  have "(n smod int m + int m) smod int m = (n smod int m + int m) mod int m"
    using m by (simp add: smod_nonneg [OF nn])
  also have "\<dots> = n mod int m" by (simp add: smod_mod)
  finally have r: "(n smod int m + int m) smod int m = n mod int m" .
  show ?thesis using m no by (simp add: modulo_64_def c Let_def r)
qed

lemma get_shift_64_eq:
  assumes "0 < len" "len \<le> 2 ^ 62"
  shows "get_shift_64 len amt = Inr (amt mod int len)"
proof -
  let ?r = "amt mod int len"
  have m: "0 < int len" using assms(1) by simp
  have a: "0 \<le> ?r" "?r < int len" using m by simp_all
  have "nat ?r < len" using a by (simp add: nat_less_iff)
  then have "nat ?r < 2 ^ 63" using pow62_lt_pow63 [OF assms(2)] by (rule less_trans)
  then have "ssize_t_of_size_t (nat ?r) = ?r" using a(1) by (simp add: ssize_t_of_small)
  then show ?thesis using a(1)
    by (simp add: get_shift_64_def modulo_64_eq [OF assms] Let_def)
qed

text \<open>
  Claim C9, as stated: for every length of at least 1 and every signed amount,
  \<^verbatim>\<open>get_shift\<close> returns a value \<open>r\<close> with \<open>0 \<le> r < length\<close> congruent to the amount.
  The length is a \<^verbatim>\<open>size_t\<close>. At \<open>2 ^ 63\<close> its cast to \<^verbatim>\<open>ssize_t\<close> in \<^verbatim>\<open>modulo\<close> is
  negative and the assertion \<^verbatim>\<open>signed_m > 0\<close> fails, for the amount 0 as for any other:
  no value is returned. At \<open>2 ^ 62 + 1\<close> with the amount \<open>2 ^ 62\<close> the sum
  \<^verbatim>\<open>(n % signed_m) + signed_m\<close> is \<open>2 ^ 63 + 1\<close>, outside \<^verbatim>\<open>ssize_t\<close>.
\<close>

theorem get_shift_64_counterexample:
  "(1::nat) \<le> 2 ^ 63
   \<and> get_shift_64 (2 ^ 63) 0 = Inl AssertionFailure
   \<and> get_shift_64 (2 ^ 63) 5 = Inl AssertionFailure
   \<and> (1::nat) \<le> 2 ^ 62 + 1
   \<and> get_shift_64 (2 ^ 62 + 1) (2 ^ 62) = Inl SignedOverflow"
  by (simp add: get_shift_64_def modulo_64_def ssize_t_of_size_t_def Let_def signed_modulo_int_def)

text \<open>
  Claim C9, amended. For every length from 1 to \<open>2 ^ 62\<close> and every signed amount,
  \<open>get_shift_64\<close> returns a value \<open>r\<close> with \<open>0 \<le> r < length\<close> that is congruent to the
  amount modulo the length, also for a negative amount; a multiple of the length
  gives 0.
\<close>

theorem get_shift_64_normalizes:
  "1 \<le> len \<Longrightarrow> len \<le> 2 ^ 62 \<Longrightarrow>
     (\<exists>r. get_shift_64 len amt = Inr r \<and> 0 \<le> r \<and> r < int len
          \<and> r mod int len = amt mod int len)
     \<and> get_shift_64 len (k * int len) = Inr 0"
  by (simp add: get_shift_64_eq)

theorem get_shift_64_normalizes_witness:
  "(1::nat) \<le> 5 \<and> (5::nat) \<le> 2 ^ 62 \<and>
     (\<exists>r. get_shift_64 5 (- 7) = Inr r \<and> 0 \<le> r \<and> r < int 5
          \<and> r mod int 5 = (- 7) mod int 5)
     \<and> get_shift_64 5 (2 * int 5) = Inr 0
     \<and> get_shift_64 5 (- 7) = Inr 3"
proof -
  have h: "(1::nat) \<le> 5" "(5::nat) \<le> 2 ^ 62" by simp_all
  have v: "get_shift_64 5 (- 7) = Inr 3" by (simp add: get_shift_64_eq)
  show ?thesis using get_shift_64_normalizes [OF h, of "- 7" 2] h v by simp
qed

text \<open>
  On a well-formed array of at most \<open>2 ^ 62\<close> bits, \<open>bitarray_rotate_64\<close> is
  \<open>bitarray_rotate\<close> on every in-range call: no sum wraps, and the byte that
  \<open>rotate_single\<close> is given lies in the buffer.
\<close>

lemma get_end_bit_64_eq: "get_end_bit_64 off len = get_end_bit off len"
proof -
  have "(8::nat) dvd 2 ^ 64" by simp
  then have "((off + len) mod 2 ^ 64) mod 8 = (off + len) mod 8"
    by (rule mod_mod_cancel)
  then show ?thesis by (simp only: get_end_bit_64_def get_end_bit_def)
qed

lemma bitarray_rotate_64_eq:
  assumes "wf_bitarray a" "bit_sz a \<le> 2 ^ 62" "off + len \<le> bit_sz a"
  shows "bitarray_rotate_64 sg a off len amt = bitarray_rotate sg a off len amt"
proof (cases "len = 0 \<or> len = 1")
  case True
  have "(off + len) mod 2 ^ 64 \<le> off + len" by simp
  then have "\<not> bit_sz a < (off + len) mod 2 ^ 64" using assms(3) by linarith
  then show ?thesis using True assms(3)
    by (auto simp: bitarray_rotate_64_def bitarray_rotate_def)
next
  case False
  then have len: "0 < len" "2 \<le> len" by simp_all
  have l62: "len \<le> 2 ^ 62" using assms(2,3) by linarith
  have "bit_sz a < 2 ^ 63" using pow62_lt_pow63 [OF assms(2)] .
  moreover have "(2::nat) ^ 63 < 2 ^ 64" by simp
  ultimately have lt: "off + len < 2 ^ 64" "off + len - 1 < 2 ^ 64"
    using assms(3) by linarith+
  have g: "\<not> bit_sz a < (off + len) mod 2 ^ 64" "\<not> bit_sz a < off + len"
    using lt(1) assms(3) by simp_all
  have idx: "get_char_index off < length (buf a)"
    using wf_index [OF assms(1), of off] assms(3) len(1) by (simp add: get_char_index_def)
  have e: "(off + len - 1) mod 2 ^ 64 = off + len - 1"
    using lt(2) by (rule mod_less)
  show ?thesis
    using False g idx e
    by (simp add: bitarray_rotate_64_def bitarray_rotate_def get_shift_64_eq [OF len(1) l62]
        get_shift_eq [OF len(1)] get_end_bit_64_eq Let_def)
qed

text \<open>
  Claim C2, as stated: a call with \<open>offset + length > bit_sz\<close> fails with a range
  error. It does not: the guard at the head of \<^verbatim>\<open>bitarray_rotate\<close> returns, and
  the test \<^verbatim>\<open>rotate2\<close> of the source expects the buffer \<open>0x02\<close> of a 7-bit array
  unchanged after \<^verbatim>\<open>bitarray_rotate(ba1, 0, 8, 1)\<close>. Whatever the signedness of
  \<^verbatim>\<open>char\<close>, the call returns normally with the array as it was.
\<close>

theorem rotate_64_out_of_range_counterexample:
  "bit_sz \<lparr>bit_sz = 7, buf = [2]\<rparr> < 0 + 8
   \<and> bitarray_rotate_64 True \<lparr>bit_sz = 7, buf = [2]\<rparr> 0 8 1 = Inr \<lparr>bit_sz = 7, buf = [2]\<rparr>
   \<and> bitarray_rotate_64 False \<lparr>bit_sz = 7, buf = [2]\<rparr> 0 8 1 = Inr \<lparr>bit_sz = 7, buf = [2]\<rparr>"
  by (simp add: bitarray_rotate_64_def)

text \<open>
  The guard compares the sum \<^verbatim>\<open>bit_offset + bit_length\<close> of two \<^verbatim>\<open>size_t\<close> values, and is
  not taken where that sum wraps to a value within the array. On the same 7-bit
  array, offset 1 with length \<open>2 ^ 64 - 1\<close> passes the guard and aborts in \<^verbatim>\<open>modulo\<close>;
  offset \<open>2 ^ 64 - 8\<close> with length 8 passes it and reaches \<^verbatim>\<open>rotate_single\<close> with the
  byte index \<open>2 ^ 61 - 1\<close>, outside the buffer.
\<close>

lemma rotate_64_wrapped_sum:
  "bit_sz \<lparr>bit_sz = 7, buf = [2]\<rparr> < 1 + (2 ^ 64 - 1)
   \<and> bitarray_rotate_64 True \<lparr>bit_sz = 7, buf = [2]\<rparr> 1 (2 ^ 64 - 1) 1 = Inl AssertionFailure
   \<and> bit_sz \<lparr>bit_sz = 7, buf = [2]\<rparr> < (2 ^ 64 - 8) + 8
   \<and> bitarray_rotate_64 True \<lparr>bit_sz = 7, buf = [2]\<rparr> (2 ^ 64 - 8) 8 1 = Inl OutOfBounds"
  by (simp add: bitarray_rotate_64_def get_shift_64_def modulo_64_def ssize_t_of_size_t_def
      get_char_index_def get_end_bit_64_def Let_def signed_modulo_int_def)

text \<open>
  Claim C2, amended: every call with \<open>offset + length > bit_sz\<close> whose sum
  \<open>offset + length\<close> is below \<open>2 ^ 64\<close>, so that it does not wrap, returns normally and
  leaves the array unchanged; no error is reported.
\<close>

theorem rotate_64_out_of_range_returns:
  "bit_sz a < off + len \<Longrightarrow> off + len < 2 ^ 64 \<Longrightarrow>
     bitarray_rotate_64 sg a off len amt = Inr a"
  by (simp add: bitarray_rotate_64_def)

theorem rotate_64_out_of_range_returns_witness:
  "bit_sz \<lparr>bit_sz = 16, buf = [1, 0]\<rparr> < 9 + 8
   \<and> (9::nat) + 8 < 2 ^ 64
   \<and> bitarray_rotate_64 True \<lparr>bit_sz = 16, buf = [1, 0]\<rparr> 9 8 3
        = Inr \<lparr>bit_sz = 16, buf = [1, 0]\<rparr>"
proof -
  have h: "bit_sz \<lparr>bit_sz = 16, buf = [1, 0]\<rparr> < 9 + 8" "(9::nat) + 8 < 2 ^ 64"
    by simp_all
  show ?thesis
    using rotate_64_out_of_range_returns [OF h, of True 3] h by simp
qed

end
